theory Spec2Isabelle
  imports Main
begin

section \<open>Data model of the link checker\<close>

text \<open>
  The TypeScript interfaces of the checker become records, its enum a datatype.
  An optional field (\<^verbatim>\<open>status?: number\<close>) has an option type: \<open>None\<close> is the
  absent field, \<open>Some 0\<close> the field holding the number 0.
\<close>

datatype LinkState = OK | BROKEN | SKIPPED

record LinkResult =
  url :: string
  status :: "int option"
  state :: LinkState

record CrawlResult =
  passed :: bool
  links :: "LinkResult list"

record CheckOptions =
  port :: "nat option"
  path :: string
  recurse :: "bool option"
  linksToSkip :: "string list option"

text \<open>What \<^verbatim>\<open>_fetch\<close> returns: the body, the HTML flag and the link result.\<close>

record FetchResult =
  data :: string
  shouldRecurse :: bool
  linkResult :: LinkResult

subsection \<open>The collaborators\<close>

text \<open>
  The HTTP client (gaxios), the regular expression engine, the link extractor
  (\<^verbatim>\<open>getLinks\<close>), the static web server and \<^verbatim>\<open>Math.random\<close> are not part of the
  checker. They are parameters of the model, collected in one record. The outside
  world has a state of an arbitrary type \<open>'w\<close>, which every request and every server
  operation may read and change, so that a server may answer the same request
  differently each time.
\<close>

datatype Method = HEAD | GET

datatype ResponseType = Text | Stream

record Request =
  req_method :: Method
  req_url :: string
  req_responseType :: ResponseType

text \<open>
  A response as far as the checker reads it: the status, the \<^verbatim>\<open>content-type\<close>
  header (absent or a string) and the body.
\<close>

record Response =
  res_status :: int
  res_content_type :: "string option"
  res_data :: string

record 'w Env =
  RegExp :: "string \<Rightarrow> (string \<Rightarrow> bool) option"
    \<comment> \<open>\<^verbatim>\<open>new RegExp(p)\<close>: \<open>None\<close> when the constructor throws a SyntaxError,
        otherwise the predicate \<^verbatim>\<open>.test\<close> of the compiled expression\<close>
  request :: "'w \<Rightarrow> Request \<Rightarrow> Response option \<times> 'w"
    \<comment> \<open>\<^verbatim>\<open>gaxios.request\<close> with \<^verbatim>\<open>validateStatus: () => true\<close>: \<open>None\<close> when the
        promise rejects (invalid domain name, connection refused, ...)\<close>
  getLinks :: "string \<Rightarrow> string \<Rightarrow> string list"
    \<comment> \<open>the links of a document body, resolved against the page's URL\<close>
  listen :: "'w \<Rightarrow> string \<Rightarrow> nat \<Rightarrow> bool \<times> 'w"
    \<comment> \<open>starting the static server on a root and a port: \<open>False\<close> when the server
        emits \<^verbatim>\<open>error\<close> and the promise rejects\<close>
  destroy :: "'w \<Rightarrow> nat \<Rightarrow> 'w"
    \<comment> \<open>\<^verbatim>\<open>server.destroy()\<close> of the server on that port\<close>
  random1000 :: nat
    \<comment> \<open>the value of \<^verbatim>\<open>Math.round(Math.random() * 1000)\<close>\<close>

subsection \<open>What a run does to the world\<close>

text \<open>
  The payload of a \<^verbatim>\<open>link\<close> event is whatever object the code hands to
  \<^verbatim>\<open>emit\<close>: a link result or the whole result of \<^verbatim>\<open>_fetch\<close>.
\<close>

datatype Payload = LinkResultP LinkResult | FetchResultP FetchResult

datatype Emitted = EmitLink Payload | EmitPagestart string

datatype ServerEvent = Started string nat | Destroyed nat

datatype Exn = SyntaxError string | ListenError | TypeError

text \<open>
  The two objects shared by every recursive call (\<^verbatim>\<open>opts.cache\<close> and
  \<^verbatim>\<open>opts.results\<close>, passed on by reference) and the traces of what the run did:
  the events emitted, the requests handed to the HTTP client and the server
  operations, each in order.
\<close>

record 'w Run =
  cache :: "string set"
  results :: "LinkResult list"
  emitted :: "Emitted list"
  requests :: "Request list"
  servers :: "ServerEvent list"
  world :: 'w

section \<open>Strings\<close>

text \<open>\<^verbatim>\<open>s.startsWith(p)\<close>.\<close>

definition startsWith :: "string \<Rightarrow> string \<Rightarrow> bool" where
  "startsWith s p = (take (length p) s = p)"

text \<open>
  \<^verbatim>\<open>contentType.match('text/html')\<close> compiles its argument to a regular
  expression without special characters: it finds the text anywhere in the string.
\<close>

fun match_text :: "string \<Rightarrow> string \<Rightarrow> bool" where
  "match_text [] p = (p = [])"
| "match_text (c # s) p = (startsWith (c # s) p \<or> match_text s p)"

text \<open>The decimal digits of a port number, as a template literal prints them.\<close>

definition digit :: "nat \<Rightarrow> char" where
  "digit d = ''0123456789'' ! d"

function string_of_nat :: "nat \<Rightarrow> string" where
  "string_of_nat n =
     (if n < 10 then [digit n]
      else string_of_nat (n div 10) @ [digit (n mod 10)])"
  by pat_completeness auto
termination
  by (relation "measure id") auto

declare string_of_nat.simps [simp del]

section \<open>The checker\<close>

text \<open>\<^verbatim>\<open>isHtml\<close>: the header, or the empty string when it is absent.\<close>

definition isHtml :: "Response \<Rightarrow> bool" where
  "isHtml res =
     (let contentType = (case res_content_type res of None \<Rightarrow> [] | Some t \<Rightarrow> t)
      in match_text contentType ''text/html'')"

text \<open>One call of the HTTP client: the request is recorded, the world moves on.\<close>

definition do_request :: "'w Env \<Rightarrow> Request \<Rightarrow> 'w Run \<Rightarrow> Response option \<times> 'w Run" where
  "do_request env q st =
     (let (r, w) = request env (world st) q
      in (r, st\<lparr>requests := requests st @ [q], world := w\<rparr>))"

text \<open>
  The end of the \<^verbatim>\<open>try\<close> block of \<^verbatim>\<open>_fetch\<close>, from the response that is kept,
  and what is returned when the \<^verbatim>\<open>catch\<close> block is entered: the initial values
  of the four variables.
\<close>

definition classified :: "string \<Rightarrow> Response \<Rightarrow> FetchResult" where
  "classified u res =
     \<lparr>data = res_data res, shouldRecurse = isHtml res,
      linkResult = \<lparr>url = u, status = Some (res_status res),
        state = (if res_status res \<ge> 200 \<and> res_status res < 300 then OK else BROKEN)\<rparr>\<rparr>"

definition failed :: "string \<Rightarrow> FetchResult" where
  "failed u =
     \<lparr>data = [], shouldRecurse = False,
      linkResult = \<lparr>url = u, status = Some 0, state = BROKEN\<rparr>\<rparr>"

definition fetch :: "'w Env \<Rightarrow> string \<Rightarrow> bool \<Rightarrow> 'w Run \<Rightarrow> FetchResult \<times> 'w Run" where
  "fetch env u shouldCrawl st =
     (case do_request env
        \<lparr>req_method = (if shouldCrawl then GET else HEAD), req_url = u,
         req_responseType = (if shouldCrawl then Text else Stream)\<rparr> st of
        (None, st1) \<Rightarrow> (failed u, st1)
      | (Some res, st1) \<Rightarrow>
          if res_status res = 405 then
            (case do_request env
               \<lparr>req_method = GET, req_url = u, req_responseType = Stream\<rparr> st1 of
               (None, st2) \<Rightarrow> (failed u, st2)
             | (Some res2, st2) \<Rightarrow> (classified u res2, st2))
          else (classified u res, st1))"

text \<open>
  The skip test of one URL: every pattern of the list is compiled and tested, in
  order (\<^verbatim>\<open>.map\<close>); the first pattern that does not compile throws.
\<close>

fun skip_tests :: "'w Env \<Rightarrow> string list \<Rightarrow> string \<Rightarrow> Exn + bool list" where
  "skip_tests env [] u = Inr []"
| "skip_tests env (p # ps) u =
     (case RegExp env p of
        None \<Rightarrow> Inl (SyntaxError p)
      | Some test \<Rightarrow>
          (case skip_tests env ps u of
             Inl e \<Rightarrow> Inl e
           | Inr bs \<Rightarrow> Inr (test u # bs)))"

text \<open>
  \<^verbatim>\<open>_filterCachedFilterSkippedThenCrawlUrlAndChildren\<close> and the loop over the
  links of a page. The recursion need not end (a site may link to ever new pages),
  so the depth of the recursion is bounded by a number: \<open>None\<close> says that the bound
  was reached. A result \<open>Some (Inl e, st)\<close> is the exception \<open>e\<close> thrown in the
  state \<open>st\<close>, a result \<open>Some (Inr (), st)\<close> a normal return; the value returned is
  \<^verbatim>\<open>opts.results\<close>, that is \<open>results st\<close>.
\<close>

fun crawl :: "nat \<Rightarrow> 'w Env \<Rightarrow> CheckOptions \<Rightarrow> string \<Rightarrow> bool \<Rightarrow> 'w Run
      \<Rightarrow> ((Exn + unit) \<times> 'w Run) option"
  and crawl_links :: "nat \<Rightarrow> 'w Env \<Rightarrow> CheckOptions \<Rightarrow> string list \<Rightarrow> 'w Run
      \<Rightarrow> ((Exn + unit) \<times> 'w Run) option" where
  "crawl 0 env co u c st = None"
| "crawl (Suc n) env co u c st =
     (if u \<in> cache st then Some (Inr (), st)
      else
        let st1 = st\<lparr>cache := insert u (cache st)\<rparr> in
        case linksToSkip co of
          None \<Rightarrow> Some (Inl TypeError, st1)
        | Some pats \<Rightarrow>
            (case skip_tests env pats u of
               Inl e \<Rightarrow> Some (Inl e, st1)
             | Inr bs \<Rightarrow>
                 if length (filter (\<lambda>b. b) bs) > 0 then
                   let result = \<lparr>url = u, status = None, state = SKIPPED\<rparr>
                   in Some (Inr (), st1\<lparr>results := results st1 @ [result],
                                       emitted := emitted st1 @ [EmitLink (LinkResultP result)]\<rparr>)
                 else
                   let (fetchResult, st2) = fetch env u c st1;
                       st3 = st2\<lparr>results := results st2 @ [linkResult fetchResult],
                               emitted := emitted st2 @ [EmitLink (FetchResultP fetchResult)]\<rparr>
                   in
                     if c \<and> shouldRecurse fetchResult then
                       crawl_links n env co (getLinks env (data fetchResult) u)
                         (st3\<lparr>emitted := emitted st3 @ [EmitPagestart u]\<rparr>)
                     else Some (Inr (), st3)))"
| "crawl_links n env co [] st = Some (Inr (), st)"
| "crawl_links n env co (u # us) st =
     (case crawl n env co u (recurse co = Some True \<and> startsWith u (path co)) st of
        None \<Rightarrow> None
      | Some (Inl e, st') \<Rightarrow> Some (Inl e, st')
      | Some (Inr _, st') \<Rightarrow> crawl_links n env co us st')"

text \<open>
  \<^verbatim>\<open>check\<close>. The options object is changed in place, so the options as they are
  when \<^verbatim>\<open>check\<close> ends are part of the result, beside the exception or the report
  and the final state of the run.
\<close>

definition check :: "nat \<Rightarrow> 'w Env \<Rightarrow> CheckOptions \<Rightarrow> 'w
      \<Rightarrow> ((Exn + CrawlResult) \<times> CheckOptions \<times> 'w Run) option" where
  "check fuel env options w =
     (let options1 = options\<lparr>linksToSkip :=
            Some ((case linksToSkip options of None \<Rightarrow> [] | Some l \<Rightarrow> l) @ [''^mailto:''])\<rparr>;
          st0 = \<lparr>cache = {}, results = [], emitted = [], requests = [], servers = [], world = w\<rparr>
      in
        if \<not> startsWith (path options1) ''http'' then
          let port1 = (case port options1 of
                         None \<Rightarrow> 5000 + random1000 env
                       | Some p \<Rightarrow> if p = 0 then 5000 + random1000 env else p)
          in case listen env w (path options1) port1 of
               (False, w1) \<Rightarrow> Some (Inl ListenError, options1, st0\<lparr>world := w1\<rparr>)
             | (True, w1) \<Rightarrow>
                 let options2 = options1\<lparr>path := ''http://localhost:'' @ string_of_nat port1\<rparr>;
                     st1 = st0\<lparr>servers := [Started (path options1) port1], world := w1\<rparr>
                 in (case crawl fuel env options2 (path options2) True st1 of
                       None \<Rightarrow> None
                     | Some (Inl e, st2) \<Rightarrow> Some (Inl e, options2, st2)
                     | Some (Inr _, st2) \<Rightarrow>
                         Some (Inr \<lparr>passed = (length (filter (\<lambda>x. state x = BROKEN) (results st2)) = 0),
                                    links = results st2\<rparr>,
                               options2,
                               st2\<lparr>servers := servers st2 @ [Destroyed port1],
                                   world := destroy env (world st2) port1\<rparr>))
        else
          (case crawl fuel env options1 (path options1) True st0 of
             None \<Rightarrow> None
           | Some (Inl e, st2) \<Rightarrow> Some (Inl e, options1, st2)
           | Some (Inr _, st2) \<Rightarrow>
               Some (Inr \<lparr>passed = (length (filter (\<lambda>x. state x = BROKEN) (results st2)) = 0),
                          links = results st2\<rparr>,
                     options1, st2)))"

section \<open>Vocabulary of the properties\<close>

text \<open>
  The first request of a call of \<^verbatim>\<open>_fetch\<close> is a HEAD, or a GET that asks for
  text; the only other request the code makes is the GET for a stream that follows a
  status 405. So the trace of requests tells the calls of \<^verbatim>\<open>_fetch\<close> apart: a
  call is one request that is not a retry, perhaps followed by its retry.
\<close>

definition first_request :: "bool \<Rightarrow> string \<Rightarrow> Request" where
  "first_request c u =
     \<lparr>req_method = (if c then GET else HEAD), req_url = u,
      req_responseType = (if c then Text else Stream)\<rparr>"

definition retry_request :: "string \<Rightarrow> Request" where
  "retry_request u = \<lparr>req_method = GET, req_url = u, req_responseType = Stream\<rparr>"

definition is_retry :: "Request \<Rightarrow> bool" where
  "is_retry q = (req_method q = GET \<and> req_responseType q = Stream)"

text \<open>
  The answer \<^verbatim>\<open>_fetch\<close> classifies, from the answers to the first request and to
  the retry: the first one, unless it is a response with status 405.
\<close>

definition kept_response :: "Response option \<Rightarrow> Response option \<Rightarrow> Response option" where
  "kept_response r1 r2 =
     (case r1 of None \<Rightarrow> None | Some res \<Rightarrow> if res_status res = 405 then r2 else Some res)"

text \<open>Some pattern of the options compiles and its test finds a match in the URL.\<close>

definition skip_match :: "'w Env \<Rightarrow> CheckOptions \<Rightarrow> string \<Rightarrow> bool" where
  "skip_match env co u =
     (case linksToSkip co of
        None \<Rightarrow> False
      | Some pats \<Rightarrow> list_ex (\<lambda>p. case RegExp env p of None \<Rightarrow> False | Some t \<Rightarrow> t u) pats)"

text \<open>
  The port of the static server: the option, or a random port from 5000 when the
  option is absent or 0 (\<^verbatim>\<open>options.port || ...\<close>).
\<close>

definition chosen_port :: "'w Env \<Rightarrow> CheckOptions \<Rightarrow> nat" where
  "chosen_port env options =
     (case port options of
        None \<Rightarrow> 5000 + random1000 env
      | Some p \<Rightarrow> if p = 0 then 5000 + random1000 env else p)"

text \<open>The list of patterns a run works with: the caller's, then the built-in one.\<close>

definition patterns :: "CheckOptions \<Rightarrow> string list" where
  "patterns options = (case linksToSkip options of None \<Rightarrow> [] | Some l \<Rightarrow> l) @ [''^mailto:'']"

text \<open>
  The URL an event is about, the link result a payload holds (itself, or inside the
  result of \<^verbatim>\<open>_fetch\<close>), and the payloads of the \<^verbatim>\<open>link\<close> events of a trace.
\<close>

fun event_url :: "Emitted \<Rightarrow> string" where
  "event_url (EmitLink (LinkResultP r)) = url r"
| "event_url (EmitLink (FetchResultP fr)) = url (linkResult fr)"
| "event_url (EmitPagestart u) = u"

fun payload_result :: "Payload \<Rightarrow> LinkResult" where
  "payload_result (LinkResultP r) = r"
| "payload_result (FetchResultP fr) = linkResult fr"

fun link_payloads :: "Emitted list \<Rightarrow> Payload list" where
  "link_payloads [] = []"
| "link_payloads (EmitLink p # es) = p # link_payloads es"
| "link_payloads (EmitPagestart u # es) = link_payloads es"

subsection \<open>Invariants of the traversal\<close>

text \<open>
  A call with the flag \<open>c\<close> for the URL \<open>u\<close> is one the code can make: the flag is
  true for the target itself and for a link under the target when recursion is on,
  and false for a link that is not.
\<close>

definition frame_ok :: "CheckOptions \<Rightarrow> string \<Rightarrow> bool \<Rightarrow> bool" where
  "frame_ok co u c =
     (if c then u = path co \<or> (recurse co = Some True \<and> startsWith u (path co))
      else \<not> (recurse co = Some True \<and> startsWith u (path co)))"

definition inv_results :: "'w Run \<Rightarrow> bool" where
  "inv_results st = (distinct (map url (results st)) \<and> url ` set (results st) = cache st)"

definition inv_requests :: "'w Run \<Rightarrow> bool" where
  "inv_requests st =
     (map req_url (filter (\<lambda>q. \<not> is_retry q) (requests st)) =
        map url (filter (\<lambda>r. state r \<noteq> SKIPPED) (results st)) \<and>
      distinct (map req_url (filter is_retry (requests st))) \<and>
      req_url ` set (requests st) \<subseteq> url ` {r \<in> set (results st). state r \<noteq> SKIPPED})"

definition inv_skipped :: "'w Env \<Rightarrow> CheckOptions \<Rightarrow> 'w Run \<Rightarrow> bool" where
  "inv_skipped env co st =
     (\<forall>r\<in>set (results st). (state r = SKIPPED \<longrightarrow> status r = None) \<and>
        (state r = SKIPPED) = skip_match env co (url r))"

definition inv_flags :: "CheckOptions \<Rightarrow> 'w Run \<Rightarrow> bool" where
  "inv_flags co st =
     ((\<forall>u. EmitPagestart u \<in> set (emitted st) \<longrightarrow> first_request True u \<in> set (requests st)) \<and>
      (\<forall>q\<in>set (requests st). q = retry_request (req_url q) \<or>
         (\<exists>c. q = first_request c (req_url q) \<and> frame_ok co (req_url q) c)))"

definition inv_events :: "'w Run \<Rightarrow> bool" where
  "inv_events st = (map payload_result (link_payloads (emitted st)) = results st)"

definition run_inv :: "'w Env \<Rightarrow> CheckOptions \<Rightarrow> 'w Run \<Rightarrow> bool" where
  "run_inv env co st =
     (inv_results st \<and> inv_requests st \<and> inv_skipped env co st \<and> inv_flags co st \<and> inv_events st)"

text \<open>
  What a call that returns has done: the visited set has grown, the new events are
  about URLs that were not visited before, and every link of every page expanded by
  these events has been visited.
\<close>

definition expansions_done :: "'w Env \<Rightarrow> Emitted list \<Rightarrow> string set \<Rightarrow> bool" where
  "expansions_done env ev seen =
     (\<forall>fr. EmitLink (FetchResultP fr) \<in> set ev \<and> EmitPagestart (url (linkResult fr)) \<in> set ev \<longrightarrow>
        set (getLinks env (data fr) (url (linkResult fr))) \<subseteq> seen)"

definition visits :: "'w Env \<Rightarrow> 'w Run \<Rightarrow> 'w Run \<Rightarrow> bool" where
  "visits env st st' =
     (cache st \<subseteq> cache st' \<and>
      (\<exists>ev. emitted st' = emitted st @ ev \<and> event_url ` set ev \<subseteq> cache st' - cache st \<and>
         expansions_done env ev (cache st')))"

section \<open>An example site\<close>

text \<open>
  A small web for the concrete runs: a page \<open>http://x/a\<close> with five links, one of
  them to itself, one a \<open>mailto:\<close> link, one to a server that refuses HEAD with
  status 405 and one to a host that does not answer; a page \<open>http://x/m\<close> whose only
  link is a \<open>mailto:\<close> link; a URL that answers every request with status 405; a
  plain text file; and the page the static server serves. The world counts the requests. The pattern \<open>[\<close> does not compile;
  \<open>^mailto:\<close> tests the start of the URL and any other pattern is searched as text.
\<close>

definition site_request :: "nat \<Rightarrow> Request \<Rightarrow> Response option \<times> nat" where
  "site_request w q =
     (if req_url q = ''http://x/a'' then
        Some \<lparr>res_status = 200, res_content_type = Some ''text/html; charset=utf-8'', res_data = ''A''\<rparr>
      else if req_url q = ''http://x/a/b'' then
        Some \<lparr>res_status = 404, res_content_type = Some ''text/html'', res_data = ''B''\<rparr>
      else if req_url q = ''http://other/'' then
        (if req_method q = HEAD then
           Some \<lparr>res_status = 405, res_content_type = None, res_data = []\<rparr>
         else Some \<lparr>res_status = 200, res_content_type = Some ''text/html'', res_data = ''O''\<rparr>)
      else if req_url q = ''http://x/m'' then
        Some \<lparr>res_status = 200, res_content_type = Some ''text/html'', res_data = ''M''\<rparr>
      else if req_url q = ''http://x/405'' then
        Some \<lparr>res_status = 405, res_content_type = Some ''text/html'', res_data = ''N''\<rparr>
      else if req_url q = ''http://x/leaf'' then
        Some \<lparr>res_status = 200, res_content_type = Some ''text/plain'', res_data = ''L''\<rparr>
      else if req_url q = ''http://localhost:5080'' then
        Some \<lparr>res_status = 200, res_content_type = Some ''text/plain'', res_data = ''D''\<rparr>
      else None, Suc w)"

definition site_links :: "string \<Rightarrow> string \<Rightarrow> string list" where
  "site_links d u =
     (if d = ''A'' then
        [''http://x/a/b'', ''http://other/'', ''mailto:me'', ''http://x/a'', ''http://x/a/c'']
      else if d = ''B'' then [''http://x/a'']
      else if d = ''M'' then [''mailto:me'']
      else [])"

definition site_regexp :: "string \<Rightarrow> (string \<Rightarrow> bool) option" where
  "site_regexp p =
     (if p = ''^mailto:'' then Some (\<lambda>u. startsWith u ''mailto:'')
      else if p = ''['' then None
      else Some (\<lambda>u. match_text u p))"

definition site :: "nat Env" where
  "site = \<lparr>RegExp = site_regexp, request = site_request, getLinks = site_links,
           listen = (\<lambda>w root p. (True, w)), destroy = (\<lambda>w p. w), random1000 = 80\<rparr>"

definition site_options :: "string \<Rightarrow> string list option \<Rightarrow> CheckOptions" where
  "site_options target skips =
     \<lparr>port = None, path = target, recurse = Some True, linksToSkip = skips\<rparr>"

text \<open>The state in which a run starts, before any server is started.\<close>

definition site_start :: "nat Run" where
  "site_start =
     \<lparr>cache = {}, results = [], emitted = [], requests = [], servers = [], world = 0\<rparr>"

text \<open>The run from the directory \<open>docs\<close>, served on port 5080.\<close>

definition site_docs_report :: CrawlResult where
  "site_docs_report =
     \<lparr>passed = True,
      links = [\<lparr>url = ''http://localhost:5080'', status = Some 200, state = OK\<rparr>]\<rparr>"

definition site_docs_options :: CheckOptions where
  "site_docs_options =
     \<lparr>port = None, path = ''http://localhost:5080'', recurse = Some True,
      linksToSkip = Some [''^mailto:'']\<rparr>"

definition site_docs_run :: "nat Run" where
  "site_docs_run =
     \<lparr>cache = {''http://localhost:5080''},
      results = links site_docs_report,
      emitted =
        [EmitLink (FetchResultP
           \<lparr>data = ''D'', shouldRecurse = False,
            linkResult = \<lparr>url = ''http://localhost:5080'', status = Some 200, state = OK\<rparr>\<rparr>)],
      requests =
        [\<lparr>req_method = GET, req_url = ''http://localhost:5080'', req_responseType = Text\<rparr>],
      servers = [Started ''docs'' 5080, Destroyed 5080], world = 1\<rparr>"

text \<open>The run from \<open>http://x/a\<close>: its report, the options and the state at its end.\<close>

definition site_a_report :: CrawlResult where
  "site_a_report =
     \<lparr>passed = False,
      links =
        [\<lparr>url = ''http://x/a'', status = Some 200, state = OK\<rparr>,
         \<lparr>url = ''http://x/a/b'', status = Some 404, state = BROKEN\<rparr>,
         \<lparr>url = ''http://other/'', status = Some 200, state = OK\<rparr>,
         \<lparr>url = ''mailto:me'', status = None, state = SKIPPED\<rparr>,
         \<lparr>url = ''http://x/a/c'', status = Some 0, state = BROKEN\<rparr>]\<rparr>"

definition site_a_options :: CheckOptions where
  "site_a_options =
     \<lparr>port = None, path = ''http://x/a'', recurse = Some True, linksToSkip = Some [''^mailto:'']\<rparr>"

definition site_a_page :: FetchResult where
  "site_a_page =
     \<lparr>data = ''A'', shouldRecurse = True,
      linkResult = \<lparr>url = ''http://x/a'', status = Some 200, state = OK\<rparr>\<rparr>"

definition site_a_run :: "nat Run" where
  "site_a_run =
     \<lparr>cache = {''http://x/a/c'', ''mailto:me'', ''http://other/'', ''http://x/a/b'', ''http://x/a''},
      results = links site_a_report,
      emitted =
        [EmitLink (FetchResultP site_a_page),
         EmitPagestart ''http://x/a'',
         EmitLink (FetchResultP
           \<lparr>data = ''B'', shouldRecurse = True,
            linkResult = \<lparr>url = ''http://x/a/b'', status = Some 404, state = BROKEN\<rparr>\<rparr>),
         EmitPagestart ''http://x/a/b'',
         EmitLink (FetchResultP
           \<lparr>data = ''O'', shouldRecurse = True,
            linkResult = \<lparr>url = ''http://other/'', status = Some 200, state = OK\<rparr>\<rparr>),
         EmitLink (LinkResultP \<lparr>url = ''mailto:me'', status = None, state = SKIPPED\<rparr>),
         EmitLink (FetchResultP
           \<lparr>data = [], shouldRecurse = False,
            linkResult = \<lparr>url = ''http://x/a/c'', status = Some 0, state = BROKEN\<rparr>\<rparr>)],
      requests =
        [\<lparr>req_method = GET, req_url = ''http://x/a'', req_responseType = Text\<rparr>,
         \<lparr>req_method = GET, req_url = ''http://x/a/b'', req_responseType = Text\<rparr>,
         \<lparr>req_method = HEAD, req_url = ''http://other/'', req_responseType = Stream\<rparr>,
         \<lparr>req_method = GET, req_url = ''http://other/'', req_responseType = Stream\<rparr>,
         \<lparr>req_method = GET, req_url = ''http://x/a/c'', req_responseType = Text\<rparr>],
      servers = [], world = 5\<rparr>"

section \<open>What one fetch and one skip test do\<close>

lemma do_request_frame:
  assumes "do_request env q st = (r, st')"
  shows "cache st' = cache st" "results st' = results st" "emitted st' = emitted st"
    "servers st' = servers st" "requests st' = requests st @ [q]"
  using assms by (auto simp: do_request_def split: prod.splits)

lemma fetch_frame:
  assumes "fetch env u c st = (fr, st')"
  shows "cache st' = cache st" "results st' = results st" "emitted st' = emitted st"
    "servers st' = servers st"
  using assms
  by (auto simp: fetch_def do_request_def split: prod.splits option.splits if_splits)

lemma fetch_linkResult:
  assumes "fetch env u c st = (fr, st')"
  shows "url (linkResult fr) = u" "state (linkResult fr) \<noteq> SKIPPED" "status (linkResult fr) \<noteq> None"
  using assms
  by (auto simp: fetch_def classified_def failed_def split: prod.splits option.splits if_splits)

lemma fetch_requests:
  assumes "fetch env u c st = (fr, st')"
  shows "requests st' = requests st @ [first_request c u] \<or>
         requests st' = requests st @ [first_request c u, retry_request u]"
  using assms
  by (auto simp: fetch_def first_request_def retry_request_def
      do_request_def split: prod.splits option.splits if_splits)

lemma skip_tests_Inr:
  "skip_tests env ps u = Inr bs \<Longrightarrow>
     (\<forall>p\<in>set ps. RegExp env p \<noteq> None) \<and>
     (0 < length (filter (\<lambda>b. b) bs)) = (\<exists>p\<in>set ps. \<exists>t. RegExp env p = Some t \<and> t u)"
proof (induction ps arbitrary: bs)
  case Nil
  then show ?case by simp
next
  case (Cons p ps)
  from Cons.prems obtain t bs' where t: "RegExp env p = Some t"
    and bs': "skip_tests env ps u = Inr bs'" and bs: "bs = t u # bs'"
    by (auto split: option.splits sum.splits)
  from Cons.IH [OF bs'] t bs show ?case by auto
qed

lemma skip_tests_Inl:
  "skip_tests env ps u = Inl e \<Longrightarrow> \<exists>p\<in>set ps. RegExp env p = None \<and> e = SyntaxError p"
  by (induction ps arbitrary: e) (auto split: option.splits sum.splits)

lemma skip_tests_invalid:
  "\<exists>p\<in>set ps. RegExp env p = None \<Longrightarrow> \<exists>e. skip_tests env ps u = Inl e"
proof (induction ps)
  case Nil
  then show ?case by simp
next
  case (Cons p ps)
  show ?case
  proof (cases "RegExp env p")
    case None
    then show ?thesis by simp
  next
    case (Some t)
    with Cons.prems have "\<exists>p\<in>set ps. RegExp env p = None" by auto
    from Cons.IH [OF this] obtain e where "skip_tests env ps u = Inl e" ..
    with Some show ?thesis by simp
  qed
qed

lemma skip_match_iff:
  "linksToSkip co = Some pats \<Longrightarrow>
   skip_match env co u = (\<exists>p\<in>set pats. \<exists>t. RegExp env p = Some t \<and> t u)"
  by (auto simp: skip_match_def list_ex_iff split: option.splits)

section \<open>An induction principle for the traversal\<close>

text \<open>
  Every property of a call that returns is proved from the same six cases: the URL
  was visited before; it is skipped; it is fetched and not expanded; it is fetched
  and its links are crawled; the list of links is empty; a link is crawled and then
  the rest of the list. The cases describe the state after each step field by field.
\<close>

lemma crawl_links_relates:
  assumes crawl: "\<And>u c st st' x. crawl n env co u c st = Some (Inr x, st') \<Longrightarrow> Q u c st st'"
    and nil: "\<And>st. QL [] st st"
    and cons: "\<And>u us st st1 st'.
      Q u (recurse co = Some True \<and> startsWith u (path co)) st st1 \<Longrightarrow> QL us st1 st' \<Longrightarrow>
      QL (u # us) st st'"
  shows "crawl_links n env co us st = Some (Inr x, st') \<Longrightarrow> QL us st st'"
proof (induction us arbitrary: st)
  case Nil
  then show ?case by (simp add: nil)
next
  case (Cons u us)
  from Cons.prems(1) obtain y st1 where
    c1: "crawl n env co u (recurse co = Some True \<and> startsWith u (path co)) st = Some (Inr y, st1)"
    and c2: "crawl_links n env co us st1 = Some (Inr x, st')"
    by (auto split: option.splits sum.splits prod.splits)
  from cons [OF crawl [OF c1] Cons.IH [OF c2]] show ?case .
qed

lemma crawl_relates:
  assumes cached: "\<And>u c st. u \<in> cache st \<Longrightarrow> Q u c st st"
    and skipped: "\<And>u c st st1.
      u \<notin> cache st \<Longrightarrow> skip_match env co u \<Longrightarrow>
      cache st1 = insert u (cache st) \<Longrightarrow>
      results st1 = results st @ [\<lparr>url = u, status = None, state = SKIPPED\<rparr>] \<Longrightarrow>
      emitted st1 = emitted st @ [EmitLink (LinkResultP \<lparr>url = u, status = None, state = SKIPPED\<rparr>)] \<Longrightarrow>
      requests st1 = requests st \<Longrightarrow> servers st1 = servers st \<Longrightarrow> Q u c st st1"
    and fetched: "\<And>u c st st1 fr.
      u \<notin> cache st \<Longrightarrow> \<not> skip_match env co u \<Longrightarrow> \<not> (c \<and> shouldRecurse fr) \<Longrightarrow>
      cache st1 = insert u (cache st) \<Longrightarrow>
      results st1 = results st @ [linkResult fr] \<Longrightarrow>
      emitted st1 = emitted st @ [EmitLink (FetchResultP fr)] \<Longrightarrow>
      requests st1 = requests st @ [first_request c u] \<or>
        requests st1 = requests st @ [first_request c u, retry_request u] \<Longrightarrow>
      servers st1 = servers st \<Longrightarrow>
      url (linkResult fr) = u \<Longrightarrow> state (linkResult fr) \<noteq> SKIPPED \<Longrightarrow>
      status (linkResult fr) \<noteq> None \<Longrightarrow> Q u c st st1"
    and expanded: "\<And>u st st1 fr st'.
      u \<notin> cache st \<Longrightarrow> \<not> skip_match env co u \<Longrightarrow> shouldRecurse fr \<Longrightarrow>
      cache st1 = insert u (cache st) \<Longrightarrow>
      results st1 = results st @ [linkResult fr] \<Longrightarrow>
      emitted st1 = emitted st @ [EmitLink (FetchResultP fr), EmitPagestart u] \<Longrightarrow>
      requests st1 = requests st @ [first_request True u] \<or>
        requests st1 = requests st @ [first_request True u, retry_request u] \<Longrightarrow>
      servers st1 = servers st \<Longrightarrow>
      url (linkResult fr) = u \<Longrightarrow> state (linkResult fr) \<noteq> SKIPPED \<Longrightarrow>
      status (linkResult fr) \<noteq> None \<Longrightarrow>
      QL (getLinks env (data fr) u) st1 st' \<Longrightarrow> Q u True st st'"
    and nil: "\<And>st. QL [] st st"
    and cons: "\<And>u us st st1 st'.
      Q u (recurse co = Some True \<and> startsWith u (path co)) st st1 \<Longrightarrow> QL us st1 st' \<Longrightarrow>
      QL (u # us) st st'"
  shows "crawl n env co u c st = Some (Inr x, st') \<Longrightarrow> Q u c st st'"
proof (induction n arbitrary: u c st st' x)
  case 0
  then show ?case by simp
next
  case (Suc n)
  have links: "crawl_links n env co us t = Some (Inr y, t') \<Longrightarrow> QL us t t'" for us t t' y
    using Suc.IH nil cons by (rule crawl_links_relates [where Q = Q and QL = QL])
  show ?case
  proof (cases "u \<in> cache st")
    case True
    with Suc.prems cached show ?thesis by simp
  next
    case fresh: False
    let ?st1 = "st\<lparr>cache := insert u (cache st)\<rparr>"
    from Suc.prems(1) fresh obtain pats bs where
      pats: "linksToSkip co = Some pats" and bs: "skip_tests env pats u = Inr bs"
      by (auto simp: Let_def split: option.splits sum.splits)
    have m: "skip_match env co u = (0 < length (filter (\<lambda>b. b) bs))"
      using skip_tests_Inr [OF bs] skip_match_iff [OF pats] by simp
    show ?thesis
    proof (cases "skip_match env co u")
      case True
      with Suc.prems(1) fresh pats bs m
      have st': "st' = ?st1\<lparr>results := results ?st1 @ [\<lparr>url = u, status = None, state = SKIPPED\<rparr>],
          emitted := emitted ?st1 @ [EmitLink (LinkResultP \<lparr>url = u, status = None, state = SKIPPED\<rparr>)]\<rparr>"
        by (simp add: Let_def)
      show ?thesis
        by (rule skipped [OF fresh True]) (simp_all add: st')
    next
      case False
      obtain fr st2 where f: "fetch env u c ?st1 = (fr, st2)"
        by (cases "fetch env u c ?st1")
      let ?st3 = "st2\<lparr>results := results st2 @ [linkResult fr],
                       emitted := emitted st2 @ [EmitLink (FetchResultP fr)]\<rparr>"
      have rq: "requests st2 = requests st @ [first_request c u] \<or>
          requests st2 = requests st @ [first_request c u, retry_request u]"
        using fetch_requests [OF f] by simp
      show ?thesis
      proof (cases "c \<and> shouldRecurse fr")
        case True
        let ?st4 = "?st3\<lparr>emitted := emitted ?st3 @ [EmitPagestart u]\<rparr>"
        from Suc.prems(1) fresh pats bs m False f True
        have run: "crawl_links n env co (getLinks env (data fr) u) ?st4 = Some (Inr x, st')"
          by (simp add: Let_def)
        have "Q u True st st'"
        proof (rule expanded [OF fresh False _ _ _ _ _ _ _ _ _ links [OF run]])
          show "requests ?st4 = requests st @ [first_request True u] \<or>
            requests ?st4 = requests st @ [first_request True u, retry_request u]"
            using rq True by simp
        qed (use True in \<open>simp_all add: fetch_frame [OF f] fetch_linkResult [OF f]\<close>)
        with True show ?thesis by simp
      next
        case stop: False
        from Suc.prems(1) fresh pats bs m False f stop
        have st': "st' = ?st3" by (auto simp: Let_def)
        show ?thesis unfolding st'
        proof (rule fetched [OF fresh False stop])
          show "requests ?st3 = requests st @ [first_request c u] \<or>
            requests ?st3 = requests st @ [first_request c u, retry_request u]"
            using rq by simp
        qed (simp_all add: fetch_frame [OF f] fetch_linkResult [OF f])
      qed
    qed
  qed
qed

section \<open>The invariants hold after every call\<close>

lemma first_request_simps [simp]:
  "req_url (first_request c u) = u" "\<not> is_retry (first_request c u)"
  "req_method (first_request c u) = (if c then GET else HEAD)"
  "req_responseType (first_request c u) = (if c then Text else Stream)"
  by (simp_all add: first_request_def is_retry_def)

lemma retry_request_simps [simp]:
  "req_url (retry_request u) = u" "is_retry (retry_request u)"
  "req_method (retry_request u) = GET" "req_responseType (retry_request u) = Stream"
  by (simp_all add: retry_request_def is_retry_def)

lemma inv_results_step:
  assumes "inv_results st" "u \<notin> cache st" "cache st1 = insert u (cache st)"
    "results st1 = results st @ [r]" "url r = u"
  shows "inv_results st1"
  using assms by (auto simp: inv_results_def)

lemma inv_requests_skipped:
  assumes "inv_requests st" "results st1 = results st @ [r]" "state r = SKIPPED"
    "requests st1 = requests st"
  shows "inv_requests st1"
  using assms by (auto simp: inv_requests_def)

lemma inv_requests_fetched:
  assumes "inv_requests st" "inv_results st" "u \<notin> cache st"
    "results st1 = results st @ [r]" "state r \<noteq> SKIPPED" "url r = u"
    "requests st1 = requests st @ [first_request c u] \<or>
     requests st1 = requests st @ [first_request c u, retry_request u]"
  shows "inv_requests st1"
proof -
  let ?live = "\<lambda>rs. url ` {r \<in> set rs. state r \<noteq> SKIPPED}"
  from assms(1) have old: "req_url ` set (requests st) \<subseteq> ?live (results st)"
    and firsts: "map req_url (filter (\<lambda>q. \<not> is_retry q) (requests st)) =
        map url (filter (\<lambda>r. state r \<noteq> SKIPPED) (results st))"
    and retries: "distinct (map req_url (filter is_retry (requests st)))"
    by (simp_all add: inv_requests_def)
  from assms(2) have "?live (results st) \<subseteq> cache st"
    unfolding inv_results_def by blast
  with old assms(3) have fresh: "u \<notin> req_url ` set (requests st)"
    by blast
  have sub: "?live (results st) \<subseteq> ?live (results st1)" and new: "u \<in> ?live (results st1)"
    using assms(4,5,6) by auto
  have 1: "map req_url (filter (\<lambda>q. \<not> is_retry q) (requests st1)) =
        map url (filter (\<lambda>r. state r \<noteq> SKIPPED) (results st1))"
    using firsts assms(4,5,6,7) by auto
  have 2: "distinct (map req_url (filter is_retry (requests st1)))"
    using retries fresh assms(7) by auto
  have "req_url ` set (requests st1) = insert u (req_url ` set (requests st))"
    using assms(7) by auto
  with old sub new have 3: "req_url ` set (requests st1) \<subseteq> ?live (results st1)"
    by blast
  from 1 2 3 show ?thesis
    by (simp add: inv_requests_def)
qed

lemma inv_skipped_step:
  assumes "inv_skipped env co st" "results st1 = results st @ [r]"
    "state r = SKIPPED \<longrightarrow> status r = None" "(state r = SKIPPED) = skip_match env co (url r)"
  shows "inv_skipped env co st1"
  using assms by (auto simp: inv_skipped_def)

lemma inv_flags_skipped:
  assumes "inv_flags co st" "emitted st1 = emitted st @ [EmitLink p]" "requests st1 = requests st"
  shows "inv_flags co st1"
  using assms by (auto simp: inv_flags_def)

lemma inv_flags_fetched:
  assumes "inv_flags co st" "frame_ok co u c"
    "emitted st1 = emitted st @ [EmitLink p] \<or>
     c \<and> emitted st1 = emitted st @ [EmitLink p, EmitPagestart u]"
    "requests st1 = requests st @ [first_request c u] \<or>
     requests st1 = requests st @ [first_request c u, retry_request u]"
  shows "inv_flags co st1"
proof -
  from assms(1) have pages: "\<forall>v. EmitPagestart v \<in> set (emitted st) \<longrightarrow>
      first_request True v \<in> set (requests st)"
    and shapes: "\<forall>q\<in>set (requests st). q = retry_request (req_url q) \<or>
         (\<exists>c. q = first_request c (req_url q) \<and> frame_ok co (req_url q) c)"
    by (simp_all add: inv_flags_def)
  define ok where "ok q \<longleftrightarrow> q = retry_request (req_url q) \<or>
         (\<exists>c. q = first_request c (req_url q) \<and> frame_ok co (req_url q) c)" for q
  have "ok (first_request c u)"
    unfolding ok_def using assms(2) by auto
  moreover have "ok (retry_request u)"
    unfolding ok_def by simp
  moreover have "\<forall>q\<in>set (requests st). ok q"
    using shapes unfolding ok_def .
  ultimately have "\<forall>q\<in>set (requests st1). ok q"
    using assms(4) by auto
  then have 2: "\<forall>q\<in>set (requests st1). q = retry_request (req_url q) \<or>
         (\<exists>c. q = first_request c (req_url q) \<and> frame_ok co (req_url q) c)"
    unfolding ok_def .
  have 1: "\<forall>v. EmitPagestart v \<in> set (emitted st1) \<longrightarrow>
      first_request True v \<in> set (requests st1)"
    using pages assms(3,4) by auto
  from 1 2 show ?thesis
    by (simp add: inv_flags_def)
qed

lemma link_payloads_append:
  "link_payloads (xs @ ys) = link_payloads xs @ link_payloads ys"
  by (induction xs rule: link_payloads.induct) simp_all

lemma inv_events_step:
  assumes "inv_events st" "results st1 = results st @ [payload_result p]"
    "emitted st1 = emitted st @ [EmitLink p] \<or>
     emitted st1 = emitted st @ [EmitLink p, EmitPagestart u]"
  shows "inv_events st1"
  using assms by (auto simp: inv_events_def link_payloads_append)

lemma crawl_run_inv:
  fixes st st' :: "'w Run"
  assumes "crawl n env co u c st = Some (Inr x, st')" "run_inv env co st" "frame_ok co u c"
  shows "run_inv env co st'"
proof -
  have "run_inv env co st \<and> frame_ok co u c \<longrightarrow> run_inv env co st'"
  proof (rule crawl_relates [where env = env and co = co
        and Q = "\<lambda>u c st st'. run_inv env co st \<and> frame_ok co u c \<longrightarrow> run_inv env co st'"
        and QL = "\<lambda>us st st'. run_inv env co st \<longrightarrow> run_inv env co st'", OF _ _ _ _ _ _ assms(1)])
    fix u c and st st1 :: "'w Run"
    assume "u \<notin> cache st" "skip_match env co u" "cache st1 = insert u (cache st)"
      "results st1 = results st @ [\<lparr>url = u, status = None, state = SKIPPED\<rparr>]"
      "emitted st1 = emitted st @ [EmitLink (LinkResultP \<lparr>url = u, status = None, state = SKIPPED\<rparr>)]"
      "requests st1 = requests st"
    then show "run_inv env co st \<and> frame_ok co u c \<longrightarrow> run_inv env co st1"
      unfolding run_inv_def
      by (auto intro: inv_results_step inv_requests_skipped inv_skipped_step inv_flags_skipped
          inv_events_step [where p = "LinkResultP \<lparr>url = u, status = None, state = SKIPPED\<rparr>"])
  next
    fix u c and st st1 :: "'w Run" and fr
    assume "u \<notin> cache st" "\<not> skip_match env co u" "cache st1 = insert u (cache st)"
      "results st1 = results st @ [linkResult fr]"
      "emitted st1 = emitted st @ [EmitLink (FetchResultP fr)]"
      "requests st1 = requests st @ [first_request c u] \<or>
        requests st1 = requests st @ [first_request c u, retry_request u]"
      "url (linkResult fr) = u" "state (linkResult fr) \<noteq> SKIPPED"
    then show "run_inv env co st \<and> frame_ok co u c \<longrightarrow> run_inv env co st1"
      unfolding run_inv_def
      by (auto intro: inv_results_step inv_requests_fetched inv_skipped_step
          inv_flags_fetched [where c = c and u = u] inv_events_step [where p = "FetchResultP fr"])
  next
    fix u and st st1 st' :: "'w Run" and fr
    assume "u \<notin> cache st" "\<not> skip_match env co u" "cache st1 = insert u (cache st)"
      "results st1 = results st @ [linkResult fr]"
      "emitted st1 = emitted st @ [EmitLink (FetchResultP fr), EmitPagestart u]"
      "requests st1 = requests st @ [first_request True u] \<or>
        requests st1 = requests st @ [first_request True u, retry_request u]"
      "url (linkResult fr) = u" "state (linkResult fr) \<noteq> SKIPPED"
    then have "run_inv env co st \<and> frame_ok co u True \<longrightarrow> run_inv env co st1"
      unfolding run_inv_def
      by (auto intro: inv_results_step inv_requests_fetched inv_skipped_step
          inv_flags_fetched [where c = True and u = u]
          inv_events_step [where p = "FetchResultP fr" and u = u])
    moreover assume "run_inv env co st1 \<longrightarrow> run_inv env co st'"
    ultimately show "run_inv env co st \<and> frame_ok co u True \<longrightarrow> run_inv env co st'"
      by blast
  next
    fix u us and st st1 st' :: "'w Run"
    assume "run_inv env co st \<and> frame_ok co u (recurse co = Some True \<and> startsWith u (path co))
        \<longrightarrow> run_inv env co st1"
      "run_inv env co st1 \<longrightarrow> run_inv env co st'"
    then show "run_inv env co st \<longrightarrow> run_inv env co st'"
      by (auto simp: frame_ok_def)
  qed simp_all
  with assms(2,3) show ?thesis by simp
qed

section \<open>Every link of an expanded page is visited\<close>

lemma visits_refl: "visits env st st"
  by (simp add: visits_def expansions_done_def)

lemma expansions_done_mono:
  "expansions_done env ev seen1 \<Longrightarrow> seen1 \<subseteq> seen \<Longrightarrow> expansions_done env ev seen"
  unfolding expansions_done_def by blast

lemma expansions_done_append:
  assumes "expansions_done env ev1 seen" "expansions_done env ev2 seen"
    "event_url ` set ev1 \<subseteq> seen1" "event_url ` set ev2 \<inter> seen1 = {}"
  shows "expansions_done env (ev1 @ ev2) seen"
  unfolding expansions_done_def
proof (intro allI impI)
  fix fr
  assume a: "EmitLink (FetchResultP fr) \<in> set (ev1 @ ev2) \<and>
    EmitPagestart (url (linkResult fr)) \<in> set (ev1 @ ev2)"
  let ?u = "url (linkResult fr)"
  have l: "event_url (EmitLink (FetchResultP fr)) = ?u" and p: "event_url (EmitPagestart ?u) = ?u"
    by simp_all
  consider "EmitLink (FetchResultP fr) \<in> set ev1" "EmitPagestart ?u \<in> set ev1"
    | "EmitLink (FetchResultP fr) \<in> set ev2" "EmitPagestart ?u \<in> set ev2"
    | "EmitLink (FetchResultP fr) \<in> set ev1" "EmitPagestart ?u \<in> set ev2"
    | "EmitLink (FetchResultP fr) \<in> set ev2" "EmitPagestart ?u \<in> set ev1"
    using a by auto
  then show "set (getLinks env (data fr) ?u) \<subseteq> seen"
  proof cases
    case 1
    with assms(1) show ?thesis unfolding expansions_done_def by blast
  next
    case 2
    with assms(2) show ?thesis unfolding expansions_done_def by blast
  next
    case 3
    then have "?u \<in> event_url ` set ev1" "?u \<in> event_url ` set ev2"
      using l p by (metis imageI)+
    with assms(3,4) show ?thesis by blast
  next
    case 4
    then have "?u \<in> event_url ` set ev1" "?u \<in> event_url ` set ev2"
      using l p by (metis imageI)+
    with assms(3,4) show ?thesis by blast
  qed
qed

lemma visits_trans:
  assumes "visits env st st1" "visits env st1 st'"
  shows "visits env st st'"
proof -
  from assms(1) obtain ev1 where 1: "cache st \<subseteq> cache st1" "emitted st1 = emitted st @ ev1"
    "event_url ` set ev1 \<subseteq> cache st1 - cache st" "expansions_done env ev1 (cache st1)"
    unfolding visits_def by blast
  from assms(2) obtain ev2 where 2: "cache st1 \<subseteq> cache st'" "emitted st' = emitted st1 @ ev2"
    "event_url ` set ev2 \<subseteq> cache st' - cache st1" "expansions_done env ev2 (cache st')"
    unfolding visits_def by blast
  have "expansions_done env (ev1 @ ev2) (cache st')"
    using expansions_done_mono [OF 1(4) 2(1)] 2(4) 1(3) 2(3)
    by (intro expansions_done_append [where ?seen1.0 = "cache st1"]) auto
  moreover have "event_url ` set (ev1 @ ev2) \<subseteq> cache st' - cache st"
    using 1(1,3) 2(1,3) by auto
  ultimately show ?thesis
    unfolding visits_def using 1(1,2) 2(1,2) by auto
qed

lemma visits_one:
  assumes "u \<notin> cache st" "cache st1 = insert u (cache st)"
    "emitted st1 = emitted st @ [EmitLink p]" "event_url (EmitLink p) = u"
  shows "visits env st st1"
  using assms by (auto simp: visits_def expansions_done_def)

lemma visits_expanded:
  assumes "u \<notin> cache st" "cache st1 = insert u (cache st)"
    "emitted st1 = emitted st @ [EmitLink (FetchResultP fr), EmitPagestart u]"
    "url (linkResult fr) = u"
    "visits env st1 st'" "set (getLinks env (data fr) u) \<subseteq> cache st'"
  shows "visits env st st'"
proof -
  from assms(5) obtain ev2 where 2: "cache st1 \<subseteq> cache st'" "emitted st' = emitted st1 @ ev2"
    "event_url ` set ev2 \<subseteq> cache st' - cache st1" "expansions_done env ev2 (cache st')"
    unfolding visits_def by blast
  let ?ev1 = "[EmitLink (FetchResultP fr), EmitPagestart u]"
  have "expansions_done env ?ev1 (cache st')"
    using assms(4,6) by (auto simp: expansions_done_def)
  then have "expansions_done env (?ev1 @ ev2) (cache st')"
    using 2(4) 2(3) assms(2,4)
    by (intro expansions_done_append [where ?seen1.0 = "cache st1"]) auto
  moreover have "event_url ` set (?ev1 @ ev2) \<subseteq> cache st' - cache st"
    using 2(1,3) assms(1,2,4) by auto
  moreover have "emitted st' = emitted st @ ?ev1 @ ev2"
    using 2(2) assms(3) by simp
  ultimately show ?thesis
    unfolding visits_def using 2(1) assms(2) by blast
qed

lemma crawl_visits:
  fixes st st' :: "'w Run"
  assumes "crawl n env co u c st = Some (Inr x, st')"
  shows "visits env st st' \<and> u \<in> cache st'"
proof (rule crawl_relates [where env = env and co = co
      and Q = "\<lambda>u c st st'. visits env st st' \<and> u \<in> cache st'"
      and QL = "\<lambda>us st st'. visits env st st' \<and> set us \<subseteq> cache st'", OF _ _ _ _ _ _ assms])
  fix u :: string and st st1 st' :: "'w Run" and fr
  assume "u \<notin> cache st" "cache st1 = insert u (cache st)"
    "emitted st1 = emitted st @ [EmitLink (FetchResultP fr), EmitPagestart u]"
    "url (linkResult fr) = u"
    "visits env st1 st' \<and> set (getLinks env (data fr) u) \<subseteq> cache st'"
  then show "visits env st st' \<and> u \<in> cache st'"
    using visits_expanded [of u st st1 fr env st'] by (auto simp: visits_def)
next
  fix u us and st st1 st' :: "'w Run"
  assume "visits env st st1 \<and> u \<in> cache st1" "visits env st1 st' \<and> set us \<subseteq> cache st'"
  then show "visits env st st' \<and> set (u # us) \<subseteq> cache st'"
    using visits_trans [of env st st1 st'] by (auto simp: visits_def)
qed (auto simp: visits_refl intro!: visits_one)

section \<open>The bound on the depth, exceptions, the server trace\<close>

text \<open>A run that ends within a bound ends the same way within any larger bound.\<close>

lemma crawl_links_more_fuel:
  assumes crawl: "\<And>u c st r. crawl n env co u c st = Some r \<Longrightarrow> crawl m env co u c st = Some r"
  shows "crawl_links n env co us st = Some r \<Longrightarrow> crawl_links m env co us st = Some r"
proof (induction us arbitrary: st)
  case Nil
  then show ?case by simp
next
  case (Cons u us)
  let ?c = "recurse co = Some True \<and> startsWith u (path co)"
  from Cons.prems obtain r1 where r1: "crawl n env co u ?c st = Some r1"
    by (auto split: option.splits)
  note r1' = crawl [OF r1]
  show ?case
  proof (cases r1)
    case (Pair o1 st1)
    show ?thesis
    proof (cases o1)
      case (Inl e)
      with Cons.prems r1 r1' Pair show ?thesis by auto
    next
      case (Inr y)
      with Cons.prems r1 Pair have "crawl_links n env co us st1 = Some r" by simp
      from Cons.IH [OF this] r1' Pair Inr show ?thesis by simp
    qed
  qed
qed

lemma crawl_more_fuel:
  "crawl n env co u c st = Some r \<Longrightarrow> n \<le> m \<Longrightarrow> crawl m env co u c st = Some r"
proof (induction n arbitrary: m u c st r)
  case 0
  then show ?case by simp
next
  case (Suc n)
  from Suc.prems(2) obtain m' where m: "m = Suc m'" and le: "n \<le> m'"
    by (cases m) auto
  have links: "crawl_links n env co us t = Some r' \<Longrightarrow> crawl_links m' env co us t = Some r'"
    for us t r'
  proof (rule crawl_links_more_fuel [where n = n])
    show "crawl n env co v d s = Some q \<Longrightarrow> crawl m' env co v d s = Some q" for v d s q
      using Suc.IH le by blast
  qed
  show ?case
  proof (cases "u \<in> cache st")
    case True
    with Suc.prems(1) m show ?thesis by simp
  next
    case False
    obtain fr st2 where f: "fetch env u c (st\<lparr>cache := insert u (cache st)\<rparr>) = (fr, st2)"
      by (cases "fetch env u c (st\<lparr>cache := insert u (cache st)\<rparr>)")
    from Suc.prems(1) False f show ?thesis unfolding m
      by (auto simp: Let_def split: option.splits sum.splits if_splits intro: links)
  qed
qed

lemma crawl_throws:
  "crawl n env co u c st = Some (Inl e, st') \<Longrightarrow>
   (case linksToSkip co of
      None \<Rightarrow> e = TypeError
    | Some pats \<Rightarrow> \<exists>p\<in>set pats. RegExp env p = None \<and> e = SyntaxError p)"
proof (induction n arbitrary: u c st st')
  case 0
  then show ?case by simp
next
  case (Suc n)
  have links: "crawl_links n env co us t = Some (Inl e, t') \<Longrightarrow>
    (case linksToSkip co of
      None \<Rightarrow> e = TypeError
    | Some pats \<Rightarrow> \<exists>p\<in>set pats. RegExp env p = None \<and> e = SyntaxError p)" for us t t'
  proof (induction us arbitrary: t)
    case Nil
    then show ?case by simp
  next
    case (Cons v vs)
    then show ?case
      using Suc.IH by (auto split: option.splits sum.splits prod.splits)
  qed
  obtain fr st2 where f: "fetch env u c (st\<lparr>cache := insert u (cache st)\<rparr>) = (fr, st2)"
    by (cases "fetch env u c (st\<lparr>cache := insert u (cache st)\<rparr>)")
  from Suc.prems f show ?case
    by (auto simp: Let_def split: option.splits sum.splits if_splits
        dest: skip_tests_Inl links)
qed

lemma crawl_bad_pattern:
  assumes "linksToSkip co = Some pats" "p \<in> set pats" "RegExp env p = None" "u \<notin> cache st"
  shows "\<exists>p'. RegExp env p' = None \<and>
    crawl (Suc n) env co u c st = Some (Inl (SyntaxError p'), st\<lparr>cache := insert u (cache st)\<rparr>)"
proof -
  from assms(2,3) have "\<exists>p\<in>set pats. RegExp env p = None" by blast
  from skip_tests_invalid [OF this] obtain e where e: "skip_tests env pats u = Inl e" ..
  from skip_tests_Inl [OF e] obtain p' where "RegExp env p' = None" "e = SyntaxError p'"
    by blast
  with e assms(1,4) show ?thesis by (auto simp: Let_def)
qed

lemma crawl_servers:
  fixes st st' :: "'w Run"
  assumes "crawl n env co u c st = Some (Inr x, st')"
  shows "servers st' = servers st"
  by (rule crawl_relates [where env = env and co = co
        and Q = "\<lambda>u c st st'. servers st' = servers st"
        and QL = "\<lambda>us st st'. servers st' = servers st", OF _ _ _ _ _ _ assms]) simp_all

section \<open>From the traversal to \<^verbatim>\<open>check\<close>\<close>

lemma run_inv_fields:
  assumes "run_inv env co st2" "cache st = cache st2" "results st = results st2"
    "emitted st = emitted st2" "requests st = requests st2"
  shows "run_inv env co st"
  using assms
  by (simp add: run_inv_def inv_results_def inv_requests_def inv_skipped_def inv_flags_def
      inv_events_def)

lemma run_inv_initial:
  assumes "cache st = {}" "results st = []" "emitted st = []" "requests st = []"
  shows "run_inv env co st"
  using assms
  by (simp add: run_inv_def inv_results_def inv_requests_def inv_skipped_def inv_flags_def
      inv_events_def)

lemma check_url:
  assumes "startsWith (path options) ''http''"
  shows "check fuel env options w =
    (case crawl fuel env (options\<lparr>linksToSkip := Some (patterns options)\<rparr>) (path options) True
        \<lparr>cache = {}, results = [], emitted = [], requests = [], servers = [], world = w\<rparr> of
       None \<Rightarrow> None
     | Some (Inl e, st2) \<Rightarrow> Some (Inl e, options\<lparr>linksToSkip := Some (patterns options)\<rparr>, st2)
     | Some (Inr x, st2) \<Rightarrow>
         Some (Inr \<lparr>passed = (length (filter (\<lambda>x. state x = BROKEN) (results st2)) = 0),
                    links = results st2\<rparr>,
               options\<lparr>linksToSkip := Some (patterns options)\<rparr>, st2))"
  using assms
  by (simp add: check_def patterns_def Let_def
      cong: option.case_cong prod.case_cong sum.case_cong)

lemma check_path:
  assumes "\<not> startsWith (path options) ''http''"
  shows "check fuel env options w =
    (case listen env w (path options) (chosen_port env options) of
       (False, w1) \<Rightarrow>
         Some (Inl ListenError, options\<lparr>linksToSkip := Some (patterns options)\<rparr>,
           \<lparr>cache = {}, results = [], emitted = [], requests = [], servers = [], world = w1\<rparr>)
     | (True, w1) \<Rightarrow>
         (case crawl fuel env
             (options\<lparr>linksToSkip := Some (patterns options),
                path := ''http://localhost:'' @ string_of_nat (chosen_port env options)\<rparr>)
             (''http://localhost:'' @ string_of_nat (chosen_port env options)) True
             \<lparr>cache = {}, results = [], emitted = [], requests = [],
              servers = [Started (path options) (chosen_port env options)], world = w1\<rparr> of
            None \<Rightarrow> None
          | Some (Inl e, st2) \<Rightarrow>
              Some (Inl e, options\<lparr>linksToSkip := Some (patterns options),
                path := ''http://localhost:'' @ string_of_nat (chosen_port env options)\<rparr>, st2)
          | Some (Inr x, st2) \<Rightarrow>
              Some (Inr \<lparr>passed = (length (filter (\<lambda>x. state x = BROKEN) (results st2)) = 0),
                         links = results st2\<rparr>,
                    options\<lparr>linksToSkip := Some (patterns options),
                      path := ''http://localhost:'' @ string_of_nat (chosen_port env options)\<rparr>,
                    st2\<lparr>servers := servers st2 @ [Destroyed (chosen_port env options)],
                        world := destroy env (world st2) (chosen_port env options)\<rparr>)))"
  using assms
  by (simp add: check_def patterns_def chosen_port_def Let_def
      cong: option.case_cong prod.case_cong sum.case_cong bool.case_cong)

lemma check_returns:
  assumes "check fuel env options w = Some (Inr report, options', st)"
  obtains st0 st2 x where
    "crawl fuel env options' (path options') True st0 = Some (Inr x, st2)"
    "cache st0 = {}" "results st0 = []" "emitted st0 = []" "requests st0 = []"
    "cache st = cache st2" "results st = results st2" "emitted st = emitted st2"
    "requests st = requests st2"
    "links report = results st"
    "passed report = (length (filter (\<lambda>x. state x = BROKEN) (results st)) = 0)"
    "linksToSkip options' = Some (patterns options)"
proof (cases "startsWith (path options) ''http''")
  case True
  from assms show ?thesis
    unfolding check_url [OF True]
    by (auto split: option.splits sum.splits prod.splits intro!: that)
next
  case False
  from assms show ?thesis
    unfolding check_path [OF False]
    by (auto split: option.splits sum.splits prod.splits bool.splits intro!: that)
qed

lemma check_run_inv:
  assumes "check fuel env options w = Some (Inr report, options', st)"
  shows "run_inv env options' st" "expansions_done env (emitted st) (cache st)"
proof -
  from assms obtain st0 st2 x where
    run: "crawl fuel env options' (path options') True st0 = Some (Inr x, st2)"
    and init: "cache st0 = {}" "results st0 = []" "emitted st0 = []" "requests st0 = []"
    and fin: "cache st = cache st2" "results st = results st2" "emitted st = emitted st2"
      "requests st = requests st2"
    by (rule check_returns)
  have "frame_ok options' (path options') True"
    by (simp add: frame_ok_def)
  from crawl_run_inv [OF run run_inv_initial [OF init] this] fin
  show "run_inv env options' st"
    by (rule run_inv_fields)
  from crawl_visits [OF run] init(3) fin(1,3)
  show "expansions_done env (emitted st) (cache st)"
    by (auto simp: visits_def)
qed

section \<open>Concrete runs and counting lemmas\<close>

lemma site_a: "check 3 site (site_options ''http://x/a'' None) 0 =
    Some (Inr site_a_report, site_a_options, site_a_run)"
  by code_simp

lemmas site_defs = site_def site_request_def site_links_def site_regexp_def site_options_def

lemma site_ports: "string_of_nat 5080 = ''5080''" "string_of_nat 8080 = ''8080''"
  by (simp_all add: string_of_nat.simps digit_def)

lemmas run_defs = check_def Let_def fetch_def do_request_def classified_def failed_def
  isHtml_def startsWith_def site_ports

lemma site_docs: "check 3 site (site_options ''docs'' None) 0 =
    Some (Inr site_docs_report, site_docs_options, site_docs_run)"
  by (simp add: run_defs site_defs site_docs_report_def site_docs_options_def site_docs_run_def
      numeral_3_eq_3)

lemma fetch_first_failed:
  assumes "request env (world st) (first_request c u) = (None, w1)"
  shows "fetch env u c st =
    (failed u, st\<lparr>requests := requests st @ [first_request c u], world := w1\<rparr>)"
  using assms by (simp add: fetch_def do_request_def first_request_def)

lemma fetch_first_kept:
  assumes "request env (world st) (first_request c u) = (Some res, w1)" "res_status res \<noteq> 405"
  shows "fetch env u c st =
    (classified u res, st\<lparr>requests := requests st @ [first_request c u], world := w1\<rparr>)"
  using assms by (simp add: fetch_def do_request_def first_request_def)

lemma fetch_retried:
  assumes "request env (world st) (first_request c u) = (Some res, w1)" "res_status res = 405"
    "request env w1 (retry_request u) = (r2, w2)"
  shows "fetch env u c st =
    (case r2 of None \<Rightarrow> failed u | Some res2 \<Rightarrow> classified u res2,
     st\<lparr>requests := requests st @ [first_request c u, retry_request u], world := w2\<rparr>)"
  using assms
  by (simp add: fetch_def do_request_def first_request_def retry_request_def split: option.splits)

lemma site_leaf_bad: "check (Suc 0) site (site_options ''http://x/leaf'' (Some [''[''])) 0 =
    Some (Inl (SyntaxError ''[''),
      \<lparr>port = None, path = ''http://x/leaf'', recurse = Some True,
       linksToSkip = Some [''['', ''^mailto:'']\<rparr>,
      site_start\<lparr>cache := {''http://x/leaf''}\<rparr>)"
  by (simp add: run_defs site_defs site_start_def)

lemma filter_unique:
  assumes "length (filter P xs) \<le> 1" "x \<in> set xs" "y \<in> set xs" "P x" "P y"
  shows "x = y"
proof -
  from assms(2-5) have x: "x \<in> set (filter P xs)" and y: "y \<in> set (filter P xs)"
    by simp_all
  show ?thesis
  proof (cases "filter P xs")
    case Nil
    with x show ?thesis by simp
  next
    case (Cons z zs)
    with assms(1) have "zs = []" by simp
    with Cons x y show ?thesis by simp
  qed
qed

lemma filter_le_one:
  "distinct (map f (filter P xs)) \<Longrightarrow> length (filter (\<lambda>x. f x = u \<and> P x) xs) \<le> 1"
proof (induction xs)
  case Nil
  then show ?case by simp
next
  case (Cons x xs)
  show ?case
  proof (cases "f x = u \<and> P x")
    case True
    with Cons.prems have "u \<notin> f ` set (filter P xs)" by auto
    then have "filter (\<lambda>x. f x = u \<and> P x) xs = []"
      by (auto simp: filter_empty_conv)
    with True show ?thesis by simp
  next
    case False
    with Cons show ?thesis by (auto split: if_splits)
  qed
qed

lemma filter_eq_one:
  assumes "distinct (map f (filter P xs))" "u \<in> f ` set (filter P xs)"
  shows "length (filter (\<lambda>x. f x = u \<and> P x) xs) = 1"
proof -
  from assms(2) have "filter (\<lambda>x. f x = u \<and> P x) xs \<noteq> []"
    by (auto simp: filter_empty_conv)
  then have "0 < length (filter (\<lambda>x. f x = u \<and> P x) xs)" by simp
  with filter_le_one [OF assms(1), of u] show ?thesis by linarith
qed

lemma crawl_throws_state:
  assumes "crawl n env co u c st = Some (Inl e, st')" "u \<notin> cache st"
  shows "st' = st\<lparr>cache := insert u (cache st)\<rparr>"
proof -
  from assms(1) obtain m where n: "n = Suc m"
    by (cases n) simp_all
  show ?thesis
  proof (cases "linksToSkip co")
    case None
    with assms n show ?thesis by (simp add: Let_def)
  next
    case (Some pats)
    with crawl_throws [OF assms(1)] obtain p where "p \<in> set pats" "RegExp env p = None"
      by auto
    from crawl_bad_pattern [OF Some this assms(2), of m c] assms(1) n
    show ?thesis by auto
  qed
qed

lemma check_throws:
  assumes "check fuel env options w = Some (Inl e, options', st)"
  shows "requests st = [] \<and> results st = [] \<and> emitted st = [] \<and>
    (e = ListenError \<and> cache st = {} \<and> servers st = [] \<or>
     (\<exists>p\<in>set (patterns options). RegExp env p = None \<and> e = SyntaxError p) \<and>
     cache st = {path options'} \<and>
     servers st = (if startsWith (path options) ''http'' then []
                   else [Started (path options) (chosen_port env options)]))"
proof (cases "startsWith (path options) ''http''")
  case True
  let ?o1 = "options\<lparr>linksToSkip := Some (patterns options)\<rparr>"
  let ?st0 = "\<lparr>cache = {}, results = [], emitted = [], requests = [], servers = [], world = w\<rparr>"
  from assms obtain st2 where
    r: "crawl fuel env ?o1 (path options) True ?st0 = Some (Inl e, st2)"
    and o: "options' = ?o1" and s: "st = st2"
    unfolding check_url [OF True]
    by (auto split: option.splits sum.splits prod.splits)
  from crawl_throws_state [OF r] have "st2 = ?st0\<lparr>cache := {path options}\<rparr>" by simp
  with crawl_throws [OF r] True o s show ?thesis by simp
next
  case False
  let ?p = "chosen_port env options"
  let ?o2 = "options\<lparr>linksToSkip := Some (patterns options),
                path := ''http://localhost:'' @ string_of_nat ?p\<rparr>"
  obtain ok w1 where l: "listen env w (path options) ?p = (ok, w1)"
    by (cases "listen env w (path options) ?p")
  let ?st1 = "\<lparr>cache = {}, results = [], emitted = [], requests = [],
              servers = [Started (path options) ?p], world = w1\<rparr>"
  show ?thesis
  proof (cases ok)
    case True
    with assms l obtain st2 where
      r: "crawl fuel env ?o2 (''http://localhost:'' @ string_of_nat ?p) True ?st1 = Some (Inl e, st2)"
      and o: "options' = ?o2" and s: "st = st2"
      unfolding check_path [OF False]
      by (auto split: option.splits sum.splits prod.splits)
    from crawl_throws_state [OF r]
    have "st2 = ?st1\<lparr>cache := {''http://localhost:'' @ string_of_nat ?p}\<rparr>" by simp
    with crawl_throws [OF r] False o s show ?thesis by simp
  next
    case no: False
    with assms l show ?thesis
      unfolding check_path [OF False] by auto
  qed
qed

section \<open>The claims\<close>

text \<open>
  Claim C2. For every run of \<^verbatim>\<open>check\<close> that returns a report, the field
  \<open>passed\<close> of the report is true if and only if no link result in the list
  \<open>links\<close> of the report has the state BROKEN.
\<close>
theorem check_passed_iff_no_broken:
  assumes "check fuel env options w = Some (Inr report, options', st)"
  shows "passed report = (\<forall>r\<in>set (links report). state r \<noteq> BROKEN)"
proof -
  from assms have "links report = results st"
    and "passed report = (length (filter (\<lambda>x. state x = BROKEN) (results st)) = 0)"
    by (auto elim: check_returns)
  then show ?thesis
    by (simp add: filter_empty_conv)
qed

theorem check_passed_iff_no_broken_witness:
  "check 3 site (site_options ''http://x/a'' None) 0 =
     Some (Inr site_a_report, site_a_options, site_a_run) \<and>
   passed site_a_report = (\<forall>r\<in>set (links site_a_report). state r \<noteq> BROKEN)"
  using site_a check_passed_iff_no_broken [OF site_a] by simp

text \<open>
  Claim C1. For every run of \<^verbatim>\<open>check\<close> that returns a report, no URL appears
  twice in the links of the report, the URLs of the report are exactly the URLs of
  the visited set, that is every URL the traversal was called for, and each URL is
  fetched at most once: among the requests handed to the HTTP client at most one
  opens a fetch of the URL (a HEAD, or a GET for text), followed by at most one
  retry (the GET for a stream after a status 405), however many pages link to it.
\<close>
theorem check_one_result_per_url:
  assumes "check fuel env options w = Some (Inr report, options', st)"
  shows "distinct (map url (links report)) \<and> url ` set (links report) = cache st \<and>
    length (filter (\<lambda>q. req_url q = u \<and> \<not> is_retry q) (requests st)) \<le> 1 \<and>
    length (filter (\<lambda>q. req_url q = u \<and> is_retry q) (requests st)) \<le> 1"
proof -
  from assms have l: "links report = results st"
    by (auto elim: check_returns)
  from check_run_inv(1) [OF assms] have r: "inv_results st" and q: "inv_requests st"
    by (simp_all add: run_inv_def)
  from r have d: "distinct (map url (results st))" and c: "url ` set (results st) = cache st"
    by (simp_all add: inv_results_def)
  from q have "map req_url (filter (\<lambda>q. \<not> is_retry q) (requests st)) =
        map url (filter (\<lambda>r. state r \<noteq> SKIPPED) (results st))"
    and retries: "distinct (map req_url (filter is_retry (requests st)))"
    by (simp_all add: inv_requests_def)
  with d have firsts: "distinct (map req_url (filter (\<lambda>q. \<not> is_retry q) (requests st)))"
    by (simp add: distinct_map_filter)
  from filter_le_one [OF firsts, of u] filter_le_one [OF retries, of u] l d c
  show ?thesis by simp
qed

theorem check_one_result_per_url_witness:
  "check 3 site (site_options ''http://x/a'' None) 0 =
     Some (Inr site_a_report, site_a_options, site_a_run) \<and>
   distinct (map url (links site_a_report)) \<and>
   url ` set (links site_a_report) = cache site_a_run \<and>
   length (filter (\<lambda>q. req_url q = ''http://other/'' \<and> \<not> is_retry q) (requests site_a_run)) \<le> 1 \<and>
   length (filter (\<lambda>q. req_url q = ''http://other/'' \<and> is_retry q) (requests site_a_run)) \<le> 1"
  using site_a check_one_result_per_url [OF site_a, of "''http://other/''"] by simp

text \<open>
  Claim C4. For every run of \<^verbatim>\<open>check\<close> that ends, with a report or with an
  exception, and every URL that some pattern of the run matches (the caller's
  patterns followed by the built-in \<open>^mailto:\<close>, each tested by the regular
  expression engine as a search): no request for that URL is handed to the HTTP
  client, every link result for it has the state SKIPPED and no status, and in a run
  that returns a report the URL has a link result in the report once the traversal
  has reached it.
\<close>
theorem skip_match_never_fetched:
  assumes "check fuel env options w = Some (out, options', st)"
    and "p \<in> set (patterns options)" and "RegExp env p = Some t" and "t u"
  shows "(\<forall>q\<in>set (requests st). req_url q \<noteq> u) \<and>
    (\<forall>r\<in>set (results st). url r = u \<longrightarrow> state r = SKIPPED \<and> status r = None) \<and>
    (\<forall>report. out = Inr report \<longrightarrow>
       links report = results st \<and> (u \<in> cache st \<longrightarrow> (\<exists>r\<in>set (links report). url r = u)))"
proof (cases out)
  case (Inl e)
  with assms(1) have "check fuel env options w = Some (Inl e, options', st)"
    by simp
  from check_throws [OF this] have "requests st = []" "results st = []"
    by simp_all
  with Inl show ?thesis
    by simp
next
  case (Inr report)
  with assms(1) have run: "check fuel env options w = Some (Inr report, options', st)"
    by simp
  then have l: "links report = results st" and pats: "linksToSkip options' = Some (patterns options)"
    by (auto elim: check_returns)
  have m: "skip_match env options' u"
    unfolding skip_match_iff [OF pats] using assms(2-4) by auto
  from check_run_inv(1) [OF run] have r: "inv_results st" and q: "inv_requests st"
    and k: "inv_skipped env options' st"
    by (simp_all add: run_inv_def)
  from k m have 2: "\<forall>r\<in>set (results st). url r = u \<longrightarrow> state r = SKIPPED \<and> status r = None"
    by (auto simp: inv_skipped_def)
  from q have sub: "req_url ` set (requests st) \<subseteq> url ` {r \<in> set (results st). state r \<noteq> SKIPPED}"
    by (simp add: inv_requests_def)
  have 1: "\<forall>q\<in>set (requests st). req_url q \<noteq> u"
  proof
    fix q
    assume "q \<in> set (requests st)"
    with sub have "req_url q \<in> url ` {r \<in> set (results st). state r \<noteq> SKIPPED}"
      by auto
    then obtain r where "r \<in> set (results st)" "state r \<noteq> SKIPPED" "url r = req_url q"
      by auto
    with 2 show "req_url q \<noteq> u"
      by auto
  qed
  from r have c: "cache st = url ` set (results st)"
    by (simp add: inv_results_def)
  have "u \<in> cache st \<longrightarrow> (\<exists>r\<in>set (results st). url r = u)"
    unfolding c by auto
  with 1 2 l Inr show ?thesis by simp
qed

theorem skip_match_never_fetched_witness:
  "check 3 site (site_options ''http://x/a'' None) 0 =
     Some (Inr site_a_report, site_a_options, site_a_run) \<and>
   ''^mailto:'' \<in> set (patterns (site_options ''http://x/a'' None)) \<and>
   RegExp site ''^mailto:'' = Some (\<lambda>u. startsWith u ''mailto:'') \<and>
   startsWith ''mailto:me'' ''mailto:'' \<and>
   filter (\<lambda>q. req_url q = ''mailto:me'') (requests site_a_run) = [] \<and>
   filter (\<lambda>r. url r = ''mailto:me'') (results site_a_run) =
     [\<lparr>url = ''mailto:me'', status = None, state = SKIPPED\<rparr>] \<and>
   ''mailto:me'' \<in> cache site_a_run \<and>
   filter (\<lambda>r. url r = ''mailto:me'') (links site_a_report) =
     [\<lparr>url = ''mailto:me'', status = None, state = SKIPPED\<rparr>]"
proof -
  have p: "''^mailto:'' \<in> set (patterns (site_options ''http://x/a'' None))"
    by (simp add: patterns_def site_options_def)
  have t: "RegExp site ''^mailto:'' = Some (\<lambda>u. startsWith u ''mailto:'')"
    by (simp add: site_def site_regexp_def)
  have m: "startsWith ''mailto:me'' ''mailto:''"
    by (simp add: startsWith_def)
  have c: "''mailto:me'' \<in> cache site_a_run"
    by (simp add: site_a_run_def)
  note th = skip_match_never_fetched [OF site_a p t m]
  from th have "\<forall>q\<in>set (requests site_a_run). req_url q \<noteq> ''mailto:me''"
    by (rule conjunct1)
  then have r1: "filter (\<lambda>q. req_url q = ''mailto:me'') (requests site_a_run) = []"
    by (simp add: filter_empty_conv)
  have r2: "filter (\<lambda>r. url r = ''mailto:me'') (results site_a_run) =
     [\<lparr>url = ''mailto:me'', status = None, state = SKIPPED\<rparr>]"
    by (simp add: site_a_run_def site_a_report_def)
  have r3: "filter (\<lambda>r. url r = ''mailto:me'') (links site_a_report) =
     [\<lparr>url = ''mailto:me'', status = None, state = SKIPPED\<rparr>]"
    by (simp add: site_a_report_def)
  from site_a p t m r1 r2 c r3 show ?thesis
    by (intro conjI)
qed

text \<open>
  Claim C9, amended. For every run whose patterns (the caller's, then the built-in
  one) contain a string that does not compile, and every positive bound on the depth:
  \<^verbatim>\<open>check\<close> ends with an exception, no request has been handed to the HTTP
  client, no result recorded and no event emitted. The exception is the failure to
  start the server, or the syntax error of a pattern that does not compile, thrown
  in the first step of the traversal: then the target is already in the visited set,
  and the server, if the target was a directory, has been started and not stopped.
\<close>
theorem bad_pattern_throws_in_first_step:
  assumes "p \<in> set (patterns options)" and "RegExp env p = None"
  shows "\<exists>e options' st. check (Suc n) env options w = Some (Inl e, options', st) \<and>
    requests st = [] \<and> results st = [] \<and> emitted st = [] \<and>
    (e = ListenError \<and> cache st = {} \<and> servers st = [] \<or>
     (\<exists>p\<in>set (patterns options). RegExp env p = None \<and> e = SyntaxError p) \<and>
     cache st = {path options'} \<and>
     servers st = (if startsWith (path options) ''http'' then []
                   else [Started (path options) (chosen_port env options)]))"
proof -
  have "\<exists>e options' st. check (Suc n) env options w = Some (Inl e, options', st)"
  proof (cases "startsWith (path options) ''http''")
    case True
    let ?o1 = "options\<lparr>linksToSkip := Some (patterns options)\<rparr>"
    let ?st0 = "\<lparr>cache = {}, results = [], emitted = [], requests = [], servers = [], world = w\<rparr>"
    have "linksToSkip ?o1 = Some (patterns options)" "path options \<notin> cache ?st0"
      by simp_all
    from crawl_bad_pattern [OF this(1) assms this(2), of n True]
    obtain p' where c: "crawl (Suc n) env ?o1 (path options) True ?st0 =
        Some (Inl (SyntaxError p'), ?st0\<lparr>cache := insert (path options) (cache ?st0)\<rparr>)"
      by auto
    from c show ?thesis
      by (simp add: check_url [OF True] del: crawl.simps)
  next
    case False
    let ?p = "chosen_port env options"
    let ?o2 = "options\<lparr>linksToSkip := Some (patterns options),
                  path := ''http://localhost:'' @ string_of_nat ?p\<rparr>"
    obtain ok w1 where l: "listen env w (path options) ?p = (ok, w1)"
      by (cases "listen env w (path options) ?p")
    let ?st1 = "\<lparr>cache = {}, results = [], emitted = [], requests = [],
                servers = [Started (path options) ?p], world = w1\<rparr>"
    have "linksToSkip ?o2 = Some (patterns options)"
      "''http://localhost:'' @ string_of_nat ?p \<notin> cache ?st1"
      by simp_all
    from crawl_bad_pattern [OF this(1) assms this(2), of n True]
    obtain p' where c: "crawl (Suc n) env ?o2 (''http://localhost:'' @ string_of_nat ?p) True ?st1 =
        Some (Inl (SyntaxError p'),
          ?st1\<lparr>cache := insert (''http://localhost:'' @ string_of_nat ?p) (cache ?st1)\<rparr>)"
      by auto
    from l c show ?thesis
      by (cases ok) (simp_all add: check_path [OF False] del: crawl.simps)
  qed
  then obtain e options' st where run: "check (Suc n) env options w = Some (Inl e, options', st)"
    by blast
  show ?thesis
    by (rule exI [of _ e], rule exI [of _ options'], rule exI [of _ st])
      (rule conjI [OF run check_throws [OF run]])
qed

theorem bad_pattern_throws_in_first_step_witness:
  "''['' \<in> set (patterns (site_options ''http://x/a'' (Some [''['']))) \<and>
   RegExp site ''['' = None \<and>
   (\<exists>e options' st.
      check (Suc 0) site (site_options ''http://x/a'' (Some [''[''])) 0 = Some (Inl e, options', st) \<and>
      requests st = [] \<and> results st = [] \<and> emitted st = [] \<and>
      (e = ListenError \<and> cache st = {} \<and> servers st = [] \<or>
       (\<exists>p\<in>set (patterns (site_options ''http://x/a'' (Some [''['']))).
          RegExp site p = None \<and> e = SyntaxError p) \<and>
       cache st = {path options'} \<and>
       servers st =
         (if startsWith (path (site_options ''http://x/a'' (Some [''['']))) ''http'' then []
          else [Started (path (site_options ''http://x/a'' (Some [''[''])))
                  (chosen_port site (site_options ''http://x/a'' (Some [''[''])))])))"
proof -
  have p: "''['' \<in> set (patterns (site_options ''http://x/a'' (Some [''[''])))"
    by (simp add: patterns_def site_options_def)
  have r: "RegExp site ''['' = None"
    by (simp add: site_def site_regexp_def)
  show ?thesis
    by (rule conjI [OF p conjI [OF r bad_pattern_throws_in_first_step [OF p r, where n = 0 and w = 0]]])
qed

text \<open>
  The claim as stated fails: with the pattern \<open>[\<close> the exception is thrown inside the
  traversal, after the target has been put into the visited set.
\<close>

theorem bad_pattern_counterexample:
  "check (Suc 0) site (site_options ''http://x/a'' (Some [''[''])) 0 =
     Some (Inl (SyntaxError ''[''),
       \<lparr>port = None, path = ''http://x/a'', recurse = Some True,
        linksToSkip = Some [''['', ''^mailto:'']\<rparr>,
       \<lparr>cache = {''http://x/a''}, results = [], emitted = [], requests = [],
        servers = [], world = 0\<rparr>)"
  by code_simp

text \<open>
  The server on the path where the traversal returns: when the target does not start
  with \<open>http\<close>, one server was started, on the directory and the chosen port, and
  it was destroyed exactly once, after the traversal; when the target starts with
  \<open>http\<close>, no server was started or destroyed.
\<close>

lemma server_destroyed_once_on_return:
  assumes "check fuel env options w = Some (Inr report, options', st)"
  shows "servers st =
    (if startsWith (path options) ''http'' then []
     else [Started (path options) (chosen_port env options),
           Destroyed (chosen_port env options)])"
proof (cases "startsWith (path options) ''http''")
  case True
  from assms obtain x st2 where
    "crawl fuel env (options\<lparr>linksToSkip := Some (patterns options)\<rparr>) (path options) True
       \<lparr>cache = {}, results = [], emitted = [], requests = [], servers = [], world = w\<rparr> =
     Some (Inr x, st2)" and "st = st2"
    unfolding check_url [OF True]
    by (auto split: option.splits sum.splits prod.splits)
  with crawl_servers [OF this(1)] True show ?thesis
    by simp
next
  case False
  let ?p = "chosen_port env options"
  obtain ok w1 where l: "listen env w (path options) ?p = (ok, w1)"
    by (cases "listen env w (path options) ?p")
  from assms l obtain x st2 where
    "crawl fuel env
       (options\<lparr>linksToSkip := Some (patterns options),
          path := ''http://localhost:'' @ string_of_nat ?p\<rparr>)
       (''http://localhost:'' @ string_of_nat ?p) True
       \<lparr>cache = {}, results = [], emitted = [], requests = [],
        servers = [Started (path options) ?p], world = w1\<rparr> =
     Some (Inr x, st2)"
    and "st = st2\<lparr>servers := servers st2 @ [Destroyed ?p], world := destroy env (world st2) ?p\<rparr>"
    unfolding check_path [OF False]
    by (cases ok) (auto split: option.splits sum.splits prod.splits)
  with crawl_servers [OF this(1)] False show ?thesis
    by simp
qed

text \<open>
  Claim C7. The code does not do what the claim says on the path where the traversal
  throws: \<^verbatim>\<open>server.destroy()\<close> is only reached when the traversal returns. In
  this run on a directory the pattern \<open>[\<close> does not compile, the traversal throws
  in its first step, and the trace of the server ends with the server started and
  never destroyed.
\<close>

theorem server_left_running_after_throw:
  "check (Suc 0) site (site_options ''docs'' (Some [''[''])) 0 =
     Some (Inl (SyntaxError ''[''),
       \<lparr>port = None, path = ''http://localhost:5080'', recurse = Some True,
        linksToSkip = Some [''['', ''^mailto:'']\<rparr>,
       \<lparr>cache = {''http://localhost:5080''}, results = [], emitted = [], requests = [],
        servers = [Started ''docs'' 5080], world = 0\<rparr>)"
  by (simp add: run_defs site_defs)

text \<open>
  Claim C8, amended. For every run of \<^verbatim>\<open>check\<close> that ends, with a report or with
  an exception, the caller's options object has been changed in place: the port and
  the recurse flag are as they were; the list of patterns is the caller's list (the
  empty list when there was none) with \<open>^mailto:\<close> appended; and the target is as it
  was when it starts with \<open>http\<close> or the server could not be started, and otherwise
  the URL of the local server on the chosen port.
\<close>

theorem check_rewrites_options:
  assumes "check fuel env options w = Some (out, options', st)"
  shows "port options' = port options \<and> recurse options' = recurse options \<and>
    linksToSkip options' =
      Some ((case linksToSkip options of None \<Rightarrow> [] | Some l \<Rightarrow> l) @ [''^mailto:'']) \<and>
    path options' =
      (if startsWith (path options) ''http'' \<or>
          \<not> fst (listen env w (path options) (chosen_port env options))
       then path options
       else ''http://localhost:'' @ string_of_nat (chosen_port env options))"
proof (cases "startsWith (path options) ''http''")
  case True
  from assms have "options' = options\<lparr>linksToSkip := Some (patterns options)\<rparr>"
    unfolding check_url [OF True]
    by (auto split: option.splits sum.splits prod.splits)
  with True show ?thesis
    by (simp add: patterns_def)
next
  case False
  let ?p = "chosen_port env options"
  obtain ok w1 where l: "listen env w (path options) ?p = (ok, w1)"
    by (cases "listen env w (path options) ?p")
  show ?thesis
  proof (cases ok)
    case True
    with assms l have "options' = options\<lparr>linksToSkip := Some (patterns options),
          path := ''http://localhost:'' @ string_of_nat ?p\<rparr>"
      unfolding check_path [OF False]
      by (auto split: option.splits sum.splits prod.splits)
    with True False l show ?thesis
      by (simp add: patterns_def)
  next
    case no: False
    with assms l have "options' = options\<lparr>linksToSkip := Some (patterns options)\<rparr>"
      unfolding check_path [OF False]
      by auto
    with no False l show ?thesis
      by (simp add: patterns_def)
  qed
qed

theorem check_rewrites_options_witness:
  "check 3 site (site_options ''docs'' None) 0 =
     Some (Inr site_docs_report, site_docs_options, site_docs_run) \<and>
   port site_docs_options = port (site_options ''docs'' None) \<and>
   recurse site_docs_options = recurse (site_options ''docs'' None) \<and>
   linksToSkip site_docs_options =
     Some ((case linksToSkip (site_options ''docs'' None) of None \<Rightarrow> [] | Some l \<Rightarrow> l) @
       [''^mailto:'']) \<and>
   path site_docs_options =
     (if startsWith (path (site_options ''docs'' None)) ''http'' \<or>
         \<not> fst (listen site 0 (path (site_options ''docs'' None))
                 (chosen_port site (site_options ''docs'' None)))
      then path (site_options ''docs'' None)
      else ''http://localhost:'' @ string_of_nat (chosen_port site (site_options ''docs'' None)))"
  by (rule conjI [OF site_docs check_rewrites_options [OF site_docs]])

text \<open>
  The claim as stated fails: after this run on a directory with one pattern, the
  target and the list of patterns of the options are not what the caller passed.
\<close>

theorem options_changed_counterexample:
  "check (Suc (Suc 0)) site
     \<lparr>port = Some 8080, path = ''public'', recurse = None, linksToSkip = Some [''cdn'']\<rparr> 0 =
     Some (Inr \<lparr>passed = False,
               links = [\<lparr>url = ''http://localhost:8080'', status = Some 0, state = BROKEN\<rparr>]\<rparr>,
       \<lparr>port = Some 8080, path = ''http://localhost:8080'', recurse = None,
        linksToSkip = Some [''cdn'', ''^mailto:'']\<rparr>,
       \<lparr>cache = {''http://localhost:8080''},
        results = [\<lparr>url = ''http://localhost:8080'', status = Some 0, state = BROKEN\<rparr>],
        emitted = [EmitLink (FetchResultP
          \<lparr>data = [], shouldRecurse = False,
           linkResult = \<lparr>url = ''http://localhost:8080'', status = Some 0, state = BROKEN\<rparr>\<rparr>)],
        requests = [\<lparr>req_method = GET, req_url = ''http://localhost:8080'', req_responseType = Text\<rparr>],
        servers = [Started ''public'' 8080, Destroyed 8080], world = 1\<rparr>)"
  by (simp add: run_defs site_defs)

text \<open>
  Claim C10. In \<^verbatim>\<open>_fetch\<close>, whenever the first request is answered by a response
  with status 405, whether it was a HEAD or already a GET, exactly one more request
  is made, a GET for a stream, and nothing after it; when the retry is answered by a
  response, the state, the status, the body and the HTML flag of the result are
  those of that response, also when its status is 405 again; when the retry fails,
  the result is BROKEN with status 0.
\<close>

theorem fetch_retries_405_once_with_get:
  assumes "request env (world st) (first_request c u) = (Some res, w1)"
    and "res_status res = 405"
    and "request env w1 \<lparr>req_method = GET, req_url = u, req_responseType = Stream\<rparr> = (r2, w2)"
    and "fetch env u c st = (fr, st')"
  shows "requests st' = requests st @
      [first_request c u, \<lparr>req_method = GET, req_url = u, req_responseType = Stream\<rparr>] \<and>
    world st' = w2 \<and>
    (case r2 of
       None \<Rightarrow> fr = \<lparr>data = [], shouldRecurse = False,
                      linkResult = \<lparr>url = u, status = Some 0, state = BROKEN\<rparr>\<rparr>
     | Some res2 \<Rightarrow>
         data fr = res_data res2 \<and> shouldRecurse fr = isHtml res2 \<and>
         linkResult fr = \<lparr>url = u, status = Some (res_status res2),
           state = (if 200 \<le> res_status res2 \<and> res_status res2 < 300 then OK else BROKEN)\<rparr>)"
proof -
  from assms(3) have "request env w1 (retry_request u) = (r2, w2)"
    by (simp add: retry_request_def)
  from fetch_retried [OF assms(1,2) this] assms(4) show ?thesis
    by (auto simp: retry_request_def failed_def classified_def split: option.splits)
qed

theorem fetch_retries_405_once_with_get_witness:
  "request site (world site_start) (first_request True ''http://x/405'') =
     (Some \<lparr>res_status = 405, res_content_type = Some ''text/html'', res_data = ''N''\<rparr>, 1) \<and>
   res_status \<lparr>res_status = 405, res_content_type = Some ''text/html'', res_data = ''N''\<rparr> = 405 \<and>
   request site 1 \<lparr>req_method = GET, req_url = ''http://x/405'', req_responseType = Stream\<rparr> =
     (Some \<lparr>res_status = 405, res_content_type = Some ''text/html'', res_data = ''N''\<rparr>, 2) \<and>
   fetch site ''http://x/405'' True site_start =
     (\<lparr>data = ''N'', shouldRecurse = True,
       linkResult = \<lparr>url = ''http://x/405'', status = Some 405, state = BROKEN\<rparr>\<rparr>,
      site_start\<lparr>requests := [first_request True ''http://x/405'',
                    \<lparr>req_method = GET, req_url = ''http://x/405'', req_responseType = Stream\<rparr>],
                  world := 2\<rparr>) \<and>
   requests (site_start\<lparr>requests := [first_request True ''http://x/405'',
                    \<lparr>req_method = GET, req_url = ''http://x/405'', req_responseType = Stream\<rparr>],
                  world := 2\<rparr>) =
     requests site_start @ [first_request True ''http://x/405'',
        \<lparr>req_method = GET, req_url = ''http://x/405'', req_responseType = Stream\<rparr>] \<and>
   shouldRecurse \<lparr>data = ''N'', shouldRecurse = True,
       linkResult = \<lparr>url = ''http://x/405'', status = Some 405, state = BROKEN\<rparr>\<rparr> =
     isHtml \<lparr>res_status = 405, res_content_type = Some ''text/html'', res_data = ''N''\<rparr>"
proof -
  let ?res = "\<lparr>res_status = 405, res_content_type = Some ''text/html'', res_data = ''N''\<rparr>"
  let ?retry = "\<lparr>req_method = GET, req_url = ''http://x/405'', req_responseType = Stream\<rparr>"
  have 1: "request site (world site_start) (first_request True ''http://x/405'') = (Some ?res, 1)"
    by (simp add: site_defs site_start_def first_request_def)
  have 2: "res_status ?res = 405"
    by simp
  have 3: "request site 1 ?retry = (Some ?res, 2)"
    by (simp add: site_defs)
  have 4: "fetch site ''http://x/405'' True site_start =
     (\<lparr>data = ''N'', shouldRecurse = True,
       linkResult = \<lparr>url = ''http://x/405'', status = Some 405, state = BROKEN\<rparr>\<rparr>,
      site_start\<lparr>requests := [first_request True ''http://x/405'', ?retry], world := 2\<rparr>)"
    by (simp add: site_defs site_start_def first_request_def fetch_def do_request_def
        classified_def isHtml_def startsWith_def)
  from fetch_retries_405_once_with_get [OF 1 2 3 4] 1 2 3 4 show ?thesis
    by simp
qed




text \<open>
  What does hold of the \<^verbatim>\<open>link\<close> events of a run that returns: there is one for
  each link result of the report, in the order of the report, and the link result is
  the payload itself or the field \<open>linkResult\<close> of the payload.
\<close>

lemma link_events_follow_results:
  assumes "check fuel env options w = Some (Inr report, options', st)"
  shows "map payload_result (link_payloads (emitted st)) = links report"
proof -
  from check_run_inv(1) [OF assms] have "inv_events st"
    by (simp add: run_inv_def)
  moreover from assms have "links report = results st"
    by (auto elim: check_returns)
  ultimately show ?thesis
    by (simp add: inv_events_def)
qed

text \<open>
  Claim C6. The code does not do what the claim says: for a URL that is fetched, the
  payload of the \<^verbatim>\<open>link\<close> event is the whole result of \<^verbatim>\<open>_fetch\<close> (body, HTML flag
  and link result), not the link result that is in the report. This run of one fetched
  URL emits one \<^verbatim>\<open>link\<close> event, and its payload is not the link result.
\<close>

theorem link_event_carries_fetch_result:
  "check (Suc 0) site (site_options ''http://x/leaf'' None) 0 =
     Some (Inr \<lparr>passed = True,
               links = [\<lparr>url = ''http://x/leaf'', status = Some 200, state = OK\<rparr>]\<rparr>,
       \<lparr>port = None, path = ''http://x/leaf'', recurse = Some True,
        linksToSkip = Some [''^mailto:'']\<rparr>,
       \<lparr>cache = {''http://x/leaf''},
        results = [\<lparr>url = ''http://x/leaf'', status = Some 200, state = OK\<rparr>],
        emitted = [EmitLink (FetchResultP
          \<lparr>data = ''L'', shouldRecurse = False,
           linkResult = \<lparr>url = ''http://x/leaf'', status = Some 200, state = OK\<rparr>\<rparr>)],
        requests = [\<lparr>req_method = GET, req_url = ''http://x/leaf'', req_responseType = Text\<rparr>],
        servers = [], world = 1\<rparr>) \<and>
   FetchResultP \<lparr>data = ''L'', shouldRecurse = False,
       linkResult = \<lparr>url = ''http://x/leaf'', status = Some 200, state = OK\<rparr>\<rparr> \<noteq>
     LinkResultP \<lparr>url = ''http://x/leaf'', status = Some 200, state = OK\<rparr>"
  by (simp add: run_defs site_defs)




end
